theory Spec2Isabelle
  imports Main "HOL-Library.Multiset"
begin

section \<open>Consume triggers of the nilability analysis (annotation/consume\_trigger.go)\<close>

subsection \<open>Collaborators declared outside the file\<close>

text \<open>
  The file uses a handful of types whose declarations live in other files of the
  package (\<open>Key\<close>, \<open>Map\<close>, \<open>Val\<close>, \<open>TriggerKind\<close>, \<open>AffiliationPair\<close>), in
  \<open>util\<close> (\<open>GuardNonce\<close>, \<open>GuardNonceSet\<close>) and in the Go standard library
  (\<open>ast.Expr\<close>, \<open>ast.ReturnStmt\<close>, \<open>types.Var\<close>, \<open>token.Pos\<close>). They are modelled
  here by what the specification says about their interface. Pointers into the AST and
  the type checker are identities (a natural number standing for the address) and are
  taken to be non-nil.
\<close>

text \<open>Modelled from the spec: \<open>Key\<close>, an opaque identity of an annotation site.\<close>

type_synonym Key = nat

text \<open>Modelled from the spec: \<open>Val\<close>, the annotation with its shallow and deep bit.\<close>

record Val =
  IsNilable :: bool
  IsDeepNilable :: bool

text \<open>Modelled from the spec: \<open>Map\<close>, the annotation snapshot, a lookup from keys to
  annotations in which a key may be absent.\<close>

type_synonym Map = "Key \<rightharpoonup> Val"

text \<open>Modelled from the spec: \<open>Key.Lookup\<close>, which returns the annotation and a flag
  telling whether the key was found. Go returns a value in both cases; for a missing key
  the model returns the zero annotation, which no caller in the file reads.\<close>

definition Lookup :: "Key \<Rightarrow> Map \<Rightarrow> Val \<times> bool" where
  "Lookup k annMap =
     (case annMap k of
        Some ann \<Rightarrow> (ann, True)
      | None \<Rightarrow> (\<lparr>IsNilable = False, IsDeepNilable = False\<rparr>, False))"

text \<open>Modelled from the spec: \<open>TriggerKind\<close>, the closed enumeration of discharge
  conditions.\<close>

datatype TriggerKind = Always | Conditional | DeepConditional

text \<open>Modelled from the spec: \<open>AffiliationPair\<close>, the pair of an interface method and
  the method implementing it (two \<open>*types.Func\<close> identities).\<close>

datatype AffiliationPair =
  AffiliationPair (InterfaceMethod: nat) (ImplementingMethod: nat)

text \<open>Modelled from the spec: guard nonces are opaque tokens, and a \<open>GuardNonceSet\<close>
  is a set of them whose identity is its content. \<open>Add\<close> is union with the given
  nonces, \<open>Copy\<close> yields a set of the same content, \<open>Intersection\<close> and \<open>Eq\<close> are
  intersection and equality of content.\<close>

type_synonym GuardNonce = nat

type_synonym GuardNonceSet = "GuardNonce set"

definition NoGuards :: GuardNonceSet where
  "NoGuards = {}"

definition Copy :: "GuardNonceSet \<Rightarrow> GuardNonceSet" where
  "Copy s = s"

definition Add :: "GuardNonceSet \<Rightarrow> GuardNonce list \<Rightarrow> GuardNonceSet" where
  "Add s guards = s \<union> set guards"

definition Intersection :: "GuardNonceSet \<Rightarrow> GuardNonceSet \<Rightarrow> GuardNonceSet" where
  "Intersection s s2 = s \<inter> s2"

definition GuardNonceSet_Eq :: "GuardNonceSet \<Rightarrow> GuardNonceSet \<Rightarrow> bool" where
  "GuardNonceSet_Eq s s2 = (s = s2)"

text \<open>AST nodes: the identity of the node and the positions it reports
  (\<open>token.Pos\<close> is an integer).\<close>

type_synonym token_Pos = int

datatype ast_Expr = ast_Expr (Expr_ref: nat) (Expr_Pos: token_Pos) (Expr_End: token_Pos)

datatype ast_ReturnStmt = ast_ReturnStmt (ReturnStmt_ref: nat) (ReturnStmt_Pos: token_Pos)

subsection \<open>The three embedded triggers\<close>

datatype TriggerIfNonNil = TriggerIfNonNil (Ann: Key)

datatype TriggerIfDeepNonNil = TriggerIfDeepNonNil (DeepAnn: Key)

datatype ConsumeTriggerTautology = ConsumeTriggerTautology

text \<open>\<open>Kind\<close>, \<open>UnderlyingSite\<close>, \<open>CheckConsume\<close> and \<open>customPos\<close> of each embedded
  struct. \<open>UnderlyingSite\<close> returns a \<open>Key\<close> interface value, which is \<open>nil\<close> for the
  tautology: \<open>None\<close> here.\<close>

definition TriggerIfNonNil_Kind :: "TriggerIfNonNil \<Rightarrow> TriggerKind" where
  "TriggerIfNonNil_Kind t = Conditional"

definition TriggerIfNonNil_UnderlyingSite :: "TriggerIfNonNil \<Rightarrow> Key option" where
  "TriggerIfNonNil_UnderlyingSite t = Some (Ann t)"

definition TriggerIfNonNil_CheckConsume :: "TriggerIfNonNil \<Rightarrow> Map \<Rightarrow> bool" where
  "TriggerIfNonNil_CheckConsume t annMap =
     (case Lookup (Ann t) annMap of (ann, ok) \<Rightarrow> ok \<and> \<not> IsNilable ann)"

definition TriggerIfNonNil_customPos :: "TriggerIfNonNil \<Rightarrow> token_Pos \<times> bool" where
  "TriggerIfNonNil_customPos t = (0, False)"

definition TriggerIfDeepNonNil_Kind :: "TriggerIfDeepNonNil \<Rightarrow> TriggerKind" where
  "TriggerIfDeepNonNil_Kind t = DeepConditional"

definition TriggerIfDeepNonNil_UnderlyingSite :: "TriggerIfDeepNonNil \<Rightarrow> Key option" where
  "TriggerIfDeepNonNil_UnderlyingSite t = Some (DeepAnn t)"

definition TriggerIfDeepNonNil_CheckConsume :: "TriggerIfDeepNonNil \<Rightarrow> Map \<Rightarrow> bool" where
  "TriggerIfDeepNonNil_CheckConsume t annMap =
     (case Lookup (DeepAnn t) annMap of (ann, ok) \<Rightarrow> ok \<and> \<not> IsDeepNilable ann)"

definition TriggerIfDeepNonNil_customPos :: "TriggerIfDeepNonNil \<Rightarrow> token_Pos \<times> bool" where
  "TriggerIfDeepNonNil_customPos t = (0, False)"

definition ConsumeTriggerTautology_Kind :: "ConsumeTriggerTautology \<Rightarrow> TriggerKind" where
  "ConsumeTriggerTautology_Kind t = Always"

definition ConsumeTriggerTautology_UnderlyingSite :: "ConsumeTriggerTautology \<Rightarrow> Key option" where
  "ConsumeTriggerTautology_UnderlyingSite t = None"

definition ConsumeTriggerTautology_CheckConsume :: "ConsumeTriggerTautology \<Rightarrow> Map \<Rightarrow> bool" where
  "ConsumeTriggerTautology_CheckConsume t annMap = True"

definition ConsumeTriggerTautology_customPos :: "ConsumeTriggerTautology \<Rightarrow> token_Pos \<times> bool" where
  "ConsumeTriggerTautology_customPos t = (0, False)"

subsection \<open>The trigger variants\<close>

text \<open>One constructor for each struct of the file that implements
  \<open>ConsumingAnnotationTrigger\<close>, with the struct's fields in the order of their
  declaration. Equality of the datatype is Go's \<open>==\<close> on the interface values: the same
  dynamic type and the same fields.\<close>

datatype ConsumingAnnotationTrigger =
    PtrLoad ConsumeTriggerTautology
  | MapAccess ConsumeTriggerTautology
  | MapWrittenTo ConsumeTriggerTautology
  | SliceAccess ConsumeTriggerTautology
  | FldAccess ConsumeTriggerTautology
  | UseAsErrorResult TriggerIfNonNil ast_ReturnStmt bool
  | FldAssign TriggerIfNonNil
  | ArgFldPass TriggerIfNonNil
  | GlobalVarAssign TriggerIfNonNil
  | ArgPass TriggerIfNonNil
  | RecvPass TriggerIfNonNil
  | InterfaceResultFromImplementation TriggerIfNonNil AffiliationPair
  | MethodParamFromInterface TriggerIfNonNil AffiliationPair
  | UseAsReturn TriggerIfNonNil bool ast_ReturnStmt
  | UseAsFldOfReturn TriggerIfNonNil
  | SliceAssign TriggerIfDeepNonNil
  | ArrayAssign TriggerIfDeepNonNil
  | PtrAssign TriggerIfDeepNonNil
  | MapAssign TriggerIfDeepNonNil
  | DeepAssignPrimitive ConsumeTriggerTautology
  | ParamAssignDeep TriggerIfDeepNonNil
  | FuncRetAssignDeep TriggerIfDeepNonNil
  | VariadicParamAssignDeep TriggerIfNonNil
  | FieldAssignDeep TriggerIfDeepNonNil
  | GlobalVarAssignDeep TriggerIfDeepNonNil
  | ChanAccess ConsumeTriggerTautology
  | LocalVarAssignDeep ConsumeTriggerTautology nat
  | ChanSend TriggerIfDeepNonNil
  | FldEscape TriggerIfNonNil
  | UseAsNonErrorRetDependentOnErrorRetNilability TriggerIfNonNil bool ast_ReturnStmt
  | UseAsErrorRetWithNilabilityUnknown TriggerIfNonNil bool ast_ReturnStmt

text \<open>The struct each variant embeds. Go promotes the methods of the embedded struct to
  the variant, so a method the variant does not declare itself is the embedded one.\<close>

datatype EmbeddedTrigger =
    IfNonNil TriggerIfNonNil
  | IfDeepNonNil TriggerIfDeepNonNil
  | Tautology ConsumeTriggerTautology

fun embedded :: "ConsumingAnnotationTrigger \<Rightarrow> EmbeddedTrigger" where
  "embedded (PtrLoad c) = Tautology c"
| "embedded (MapAccess c) = Tautology c"
| "embedded (MapWrittenTo c) = Tautology c"
| "embedded (SliceAccess c) = Tautology c"
| "embedded (FldAccess c) = Tautology c"
| "embedded (UseAsErrorResult t retStmt isNamedReturn) = IfNonNil t"
| "embedded (FldAssign t) = IfNonNil t"
| "embedded (ArgFldPass t) = IfNonNil t"
| "embedded (GlobalVarAssign t) = IfNonNil t"
| "embedded (ArgPass t) = IfNonNil t"
| "embedded (RecvPass t) = IfNonNil t"
| "embedded (InterfaceResultFromImplementation t p) = IfNonNil t"
| "embedded (MethodParamFromInterface t p) = IfNonNil t"
| "embedded (UseAsReturn t isNamedReturn retStmt) = IfNonNil t"
| "embedded (UseAsFldOfReturn t) = IfNonNil t"
| "embedded (SliceAssign d) = IfDeepNonNil d"
| "embedded (ArrayAssign d) = IfDeepNonNil d"
| "embedded (PtrAssign d) = IfDeepNonNil d"
| "embedded (MapAssign d) = IfDeepNonNil d"
| "embedded (DeepAssignPrimitive c) = Tautology c"
| "embedded (ParamAssignDeep d) = IfDeepNonNil d"
| "embedded (FuncRetAssignDeep d) = IfDeepNonNil d"
| "embedded (VariadicParamAssignDeep t) = IfNonNil t"
| "embedded (FieldAssignDeep d) = IfDeepNonNil d"
| "embedded (GlobalVarAssignDeep d) = IfDeepNonNil d"
| "embedded (ChanAccess c) = Tautology c"
| "embedded (LocalVarAssignDeep c localVar) = Tautology c"
| "embedded (ChanSend d) = IfDeepNonNil d"
| "embedded (FldEscape t) = IfNonNil t"
| "embedded (UseAsNonErrorRetDependentOnErrorRetNilability t isNamedReturn retStmt) = IfNonNil t"
| "embedded (UseAsErrorRetWithNilabilityUnknown t isNamedReturn retStmt) = IfNonNil t"

text \<open>The methods of the interface. No variant declares \<open>CheckConsume\<close>, \<open>Kind\<close> or
  \<open>UnderlyingSite\<close>, so all three are the promoted ones.\<close>

definition CheckConsume :: "ConsumingAnnotationTrigger \<Rightarrow> Map \<Rightarrow> bool" where
  "CheckConsume a annMap =
     (case embedded a of
        IfNonNil t \<Rightarrow> TriggerIfNonNil_CheckConsume t annMap
      | IfDeepNonNil d \<Rightarrow> TriggerIfDeepNonNil_CheckConsume d annMap
      | Tautology c \<Rightarrow> ConsumeTriggerTautology_CheckConsume c annMap)"

definition Kind :: "ConsumingAnnotationTrigger \<Rightarrow> TriggerKind" where
  "Kind a =
     (case embedded a of
        IfNonNil t \<Rightarrow> TriggerIfNonNil_Kind t
      | IfDeepNonNil d \<Rightarrow> TriggerIfDeepNonNil_Kind d
      | Tautology c \<Rightarrow> ConsumeTriggerTautology_Kind c)"

definition UnderlyingSite :: "ConsumingAnnotationTrigger \<Rightarrow> Key option" where
  "UnderlyingSite a =
     (case embedded a of
        IfNonNil t \<Rightarrow> TriggerIfNonNil_UnderlyingSite t
      | IfDeepNonNil d \<Rightarrow> TriggerIfDeepNonNil_UnderlyingSite d
      | Tautology c \<Rightarrow> ConsumeTriggerTautology_UnderlyingSite c)"

text \<open>\<open>customPos\<close> is declared by four variants; every other variant has the promoted
  default of its embedded struct.\<close>

fun customPos :: "ConsumingAnnotationTrigger \<Rightarrow> token_Pos \<times> bool" where
  "customPos (UseAsErrorResult t retStmt isNamedReturn) =
     (if isNamedReturn then (ReturnStmt_Pos retStmt, True) else (0, False))"
| "customPos (UseAsReturn t isNamedReturn retStmt) =
     (if isNamedReturn then (ReturnStmt_Pos retStmt, True) else (0, False))"
| "customPos (UseAsNonErrorRetDependentOnErrorRetNilability t isNamedReturn retStmt) =
     (if isNamedReturn then (ReturnStmt_Pos retStmt, True) else (0, False))"
| "customPos (UseAsErrorRetWithNilabilityUnknown t isNamedReturn retStmt) =
     (if isNamedReturn then (ReturnStmt_Pos retStmt, True) else (0, False))"
| "customPos a =
     (case embedded a of
        IfNonNil t \<Rightarrow> TriggerIfNonNil_customPos t
      | IfDeepNonNil d \<Rightarrow> TriggerIfDeepNonNil_customPos d
      | Tautology c \<Rightarrow> ConsumeTriggerTautology_customPos c)"

subsection \<open>Consume triggers\<close>

record ConsumeTrigger =
  Annotation :: ConsumingAnnotationTrigger
  Expr :: ast_Expr
  Guards :: GuardNonceSet
  GuardMatched :: bool

definition ConsumeTrigger_Eq :: "ConsumeTrigger \<Rightarrow> ConsumeTrigger \<Rightarrow> bool" where
  "ConsumeTrigger_Eq c c2 =
     (Annotation c = Annotation c2 \<and>
      Expr c = Expr c2 \<and>
      GuardNonceSet_Eq (Guards c) (Guards c2) \<and>
      GuardMatched c = GuardMatched c2)"

definition ConsumeTrigger_Pos :: "ConsumeTrigger \<Rightarrow> token_Pos" where
  "ConsumeTrigger_Pos c =
     (case customPos (Annotation c) of
        (pos, ok) \<Rightarrow> if ok then pos else Expr_Pos (Expr c))"

text \<open>The closure \<open>addToOut\<close> of \<open>MergeConsumeTriggerSlices\<close>, with the slice \<open>out\<close> it
  updates passed in and returned: the first entry of \<open>out\<close> with the annotation and the
  expression of \<open>trigger\<close> is replaced by the merged record; when there is none,
  \<open>trigger\<close> is appended.\<close>

fun addToOut :: "ConsumeTrigger list \<Rightarrow> ConsumeTrigger \<Rightarrow> ConsumeTrigger list" where
  "addToOut [] trigger = [trigger]"
| "addToOut (outTrigger # out) trigger =
     (if Annotation outTrigger = Annotation trigger \<and> Expr outTrigger = Expr trigger
      then \<lparr>Annotation = Annotation outTrigger,
            Expr = Expr outTrigger,
            Guards = Intersection (Guards outTrigger) (Guards trigger),
            GuardMatched = (GuardMatched outTrigger \<and> GuardMatched trigger)\<rparr> # out
      else outTrigger # addToOut out trigger)"

definition MergeConsumeTriggerSlices ::
  "ConsumeTrigger list \<Rightarrow> ConsumeTrigger list \<Rightarrow> ConsumeTrigger list" where
  "MergeConsumeTriggerSlices left right = foldl addToOut (foldl addToOut [] left) right"

definition ConsumeTriggerSliceAsGuarded ::
  "ConsumeTrigger list \<Rightarrow> GuardNonce list \<Rightarrow> ConsumeTrigger list" where
  "ConsumeTriggerSliceAsGuarded slice guards =
     foldl (\<lambda>out trigger.
              out @ [\<lparr>Annotation = Annotation trigger,
                      Expr = Expr trigger,
                      Guards = Add (Copy (Guards trigger)) guards,
                      GuardMatched = False\<rparr>])
           [] slice"

text \<open>The two loops of \<open>ConsumeTriggerSlicesEq\<close>: the inner one searches for a record of
  \<open>right\<close> equal to \<open>l\<close>, the outer one (label \<open>lsearch\<close>) gives up at the first \<open>l\<close>
  that has none.\<close>

fun rsearch :: "ConsumeTrigger \<Rightarrow> ConsumeTrigger list \<Rightarrow> bool" where
  "rsearch l [] = False"
| "rsearch l (r # right) = (if ConsumeTrigger_Eq l r then True else rsearch l right)"

fun lsearch :: "ConsumeTrigger list \<Rightarrow> ConsumeTrigger list \<Rightarrow> bool" where
  "lsearch [] right = True"
| "lsearch (l # left) right = (if rsearch l right then lsearch left right else False)"

definition ConsumeTriggerSlicesEq :: "ConsumeTrigger list \<Rightarrow> ConsumeTrigger list \<Rightarrow> bool" where
  "ConsumeTriggerSlicesEq left right =
     (if length left \<noteq> length right then False else lsearch left right)"

text \<open>The matching key of the merge: the two fields \<open>addToOut\<close> compares.\<close>

definition obligation :: "ConsumeTrigger \<Rightarrow> ConsumingAnnotationTrigger \<times> ast_Expr" where
  "obligation c = (Annotation c, Expr c)"

text \<open>What a slice \<open>out\<close> holds once the records of \<open>xs\<close> have been added to it
  one by one: one record for each obligation of \<open>xs\<close>, guarded by the guards common to
  all records of that obligation, and matched when all of them are.\<close>

definition mergedFrom :: "ConsumeTrigger list \<Rightarrow> ConsumeTrigger list \<Rightarrow> bool" where
  "mergedFrom out xs \<longleftrightarrow>
     distinct (map obligation out) \<and>
     obligation ` set out = obligation ` set xs \<and>
     (\<forall>e \<in> set out.
        Guards e = (\<Inter>r \<in> {r \<in> set xs. obligation r = obligation e}. Guards r) \<and>
        GuardMatched e = (\<forall>r \<in> set xs. obligation r = obligation e \<longrightarrow> GuardMatched r))"

section \<open>Evaluation of the triggers\<close>

lemma Lookup_found: "annMap k = Some ann \<Longrightarrow> Lookup k annMap = (ann, True)"
  by (simp add: Lookup_def)

lemma Lookup_absent: "annMap k = None \<Longrightarrow> snd (Lookup k annMap) = False"
  by (simp add: Lookup_def)

text \<open>
  Claim C4. For every key \<open>k\<close> and every annotation map, \<open>CheckConsume\<close> of
  \<open>TriggerIfNonNil\<close> with annotation key \<open>k\<close> returns true exactly when \<open>k\<close> is found in
  the map and the annotation found is not nilable; for a key absent from the map it
  returns false. The same holds for every variant that embeds the struct.
\<close>

theorem TriggerIfNonNil_CheckConsume_iff:
  "(TriggerIfNonNil_CheckConsume (TriggerIfNonNil k) annMap
      \<longleftrightarrow> (\<exists>ann. annMap k = Some ann \<and> IsNilable ann = False))
   \<and> (annMap k = None \<longrightarrow> TriggerIfNonNil_CheckConsume (TriggerIfNonNil k) annMap = False)
   \<and> (embedded a = IfNonNil (TriggerIfNonNil k) \<longrightarrow>
        (CheckConsume a annMap \<longleftrightarrow> (\<exists>ann. annMap k = Some ann \<and> IsNilable ann = False)))"
  by (auto simp: TriggerIfNonNil_CheckConsume_def CheckConsume_def Lookup_def
      split: option.splits)

theorem TriggerIfNonNil_CheckConsume_iff_witness:
  "[0 \<mapsto> \<lparr>IsNilable = True, IsDeepNilable = False\<rparr>] (1::nat) = None
   \<and> TriggerIfNonNil_CheckConsume (TriggerIfNonNil 1)
         [0 \<mapsto> \<lparr>IsNilable = True, IsDeepNilable = False\<rparr>] = False
   \<and> embedded (ArgPass (TriggerIfNonNil 0)) = IfNonNil (TriggerIfNonNil 0)
   \<and> CheckConsume (ArgPass (TriggerIfNonNil 0)) [0 \<mapsto> \<lparr>IsNilable = False, IsDeepNilable = True\<rparr>]
   \<and> \<not> CheckConsume (ArgPass (TriggerIfNonNil 0)) [0 \<mapsto> \<lparr>IsNilable = True, IsDeepNilable = False\<rparr>]
   \<and> \<not> CheckConsume (ArgPass (TriggerIfNonNil 0)) Map.empty"
  using
    TriggerIfNonNil_CheckConsume_iff
      [of 1 "[0 \<mapsto> \<lparr>IsNilable = True, IsDeepNilable = False\<rparr>]" "ArgPass (TriggerIfNonNil 1)"]
    TriggerIfNonNil_CheckConsume_iff
      [of 0 "[0 \<mapsto> \<lparr>IsNilable = False, IsDeepNilable = True\<rparr>]" "ArgPass (TriggerIfNonNil 0)"]
    TriggerIfNonNil_CheckConsume_iff
      [of 0 "[0 \<mapsto> \<lparr>IsNilable = True, IsDeepNilable = False\<rparr>]" "ArgPass (TriggerIfNonNil 0)"]
    TriggerIfNonNil_CheckConsume_iff [of 0 "Map.empty" "ArgPass (TriggerIfNonNil 0)"]
  by simp

text \<open>
  Claim C5. For every key \<open>k\<close> and every annotation map, \<open>CheckConsume\<close> of
  \<open>TriggerIfDeepNonNil\<close> with annotation key \<open>k\<close> returns true exactly when \<open>k\<close> is found
  in the map and the annotation found is not deeply nilable, and false when \<open>k\<close> is
  absent; its \<open>Kind\<close> is \<open>DeepConditional\<close> and its \<open>UnderlyingSite\<close> is \<open>k\<close>. The same
  holds for every variant that embeds the struct.
\<close>

theorem TriggerIfDeepNonNil_CheckConsume_iff:
  "(TriggerIfDeepNonNil_CheckConsume (TriggerIfDeepNonNil k) annMap
      \<longleftrightarrow> (\<exists>ann. annMap k = Some ann \<and> IsDeepNilable ann = False))
   \<and> (annMap k = None \<longrightarrow>
        TriggerIfDeepNonNil_CheckConsume (TriggerIfDeepNonNil k) annMap = False)
   \<and> TriggerIfDeepNonNil_Kind (TriggerIfDeepNonNil k) = DeepConditional
   \<and> TriggerIfDeepNonNil_UnderlyingSite (TriggerIfDeepNonNil k) = Some k
   \<and> (embedded a = IfDeepNonNil (TriggerIfDeepNonNil k) \<longrightarrow>
        (CheckConsume a annMap \<longleftrightarrow> (\<exists>ann. annMap k = Some ann \<and> IsDeepNilable ann = False))
        \<and> Kind a = DeepConditional \<and> UnderlyingSite a = Some k)"
  by (auto simp: TriggerIfDeepNonNil_CheckConsume_def CheckConsume_def Lookup_def Kind_def
      UnderlyingSite_def TriggerIfDeepNonNil_Kind_def TriggerIfDeepNonNil_UnderlyingSite_def
      split: option.splits)

theorem TriggerIfDeepNonNil_CheckConsume_iff_witness:
  "[0 \<mapsto> \<lparr>IsNilable = False, IsDeepNilable = True\<rparr>] (1::nat) = None
   \<and> TriggerIfDeepNonNil_CheckConsume (TriggerIfDeepNonNil 1)
         [0 \<mapsto> \<lparr>IsNilable = False, IsDeepNilable = True\<rparr>] = False
   \<and> embedded (SliceAssign (TriggerIfDeepNonNil 0)) = IfDeepNonNil (TriggerIfDeepNonNil 0)
   \<and> CheckConsume (SliceAssign (TriggerIfDeepNonNil 0))
         [0 \<mapsto> \<lparr>IsNilable = True, IsDeepNilable = False\<rparr>]
   \<and> \<not> CheckConsume (SliceAssign (TriggerIfDeepNonNil 0))
         [0 \<mapsto> \<lparr>IsNilable = False, IsDeepNilable = True\<rparr>]
   \<and> \<not> CheckConsume (SliceAssign (TriggerIfDeepNonNil 0)) Map.empty
   \<and> Kind (SliceAssign (TriggerIfDeepNonNil 0)) = DeepConditional
   \<and> UnderlyingSite (SliceAssign (TriggerIfDeepNonNil 0)) = Some 0"
  using
    TriggerIfDeepNonNil_CheckConsume_iff
      [of 1 "[0 \<mapsto> \<lparr>IsNilable = False, IsDeepNilable = True\<rparr>]"
          "SliceAssign (TriggerIfDeepNonNil 1)"]
    TriggerIfDeepNonNil_CheckConsume_iff
      [of 0 "[0 \<mapsto> \<lparr>IsNilable = True, IsDeepNilable = False\<rparr>]"
          "SliceAssign (TriggerIfDeepNonNil 0)"]
    TriggerIfDeepNonNil_CheckConsume_iff
      [of 0 "[0 \<mapsto> \<lparr>IsNilable = False, IsDeepNilable = True\<rparr>]"
          "SliceAssign (TriggerIfDeepNonNil 0)"]
    TriggerIfDeepNonNil_CheckConsume_iff [of 0 "Map.empty" "SliceAssign (TriggerIfDeepNonNil 0)"]
  by simp

text \<open>
  Claim C6. \<open>CheckConsume\<close> of \<open>ConsumeTriggerTautology\<close> returns true for every
  annotation map, the empty map included; its \<open>Kind\<close> is \<open>Always\<close> and its
  \<open>UnderlyingSite\<close> is nil. The same holds for every variant that embeds the struct.
\<close>

theorem ConsumeTriggerTautology_CheckConsume_always:
  "ConsumeTriggerTautology_CheckConsume c annMap
   \<and> ConsumeTriggerTautology_CheckConsume c Map.empty
   \<and> ConsumeTriggerTautology_Kind c = Always
   \<and> ConsumeTriggerTautology_UnderlyingSite c = None
   \<and> (embedded a = Tautology c \<longrightarrow>
        CheckConsume a annMap \<and> CheckConsume a Map.empty
        \<and> Kind a = Always \<and> UnderlyingSite a = None)"
  by (simp add: ConsumeTriggerTautology_CheckConsume_def CheckConsume_def Kind_def
      UnderlyingSite_def ConsumeTriggerTautology_Kind_def
      ConsumeTriggerTautology_UnderlyingSite_def)

theorem ConsumeTriggerTautology_CheckConsume_always_witness:
  "embedded (PtrLoad ConsumeTriggerTautology) = Tautology ConsumeTriggerTautology
   \<and> CheckConsume (PtrLoad ConsumeTriggerTautology)
         [0 \<mapsto> \<lparr>IsNilable = True, IsDeepNilable = True\<rparr>]
   \<and> CheckConsume (PtrLoad ConsumeTriggerTautology) Map.empty
   \<and> Kind (PtrLoad ConsumeTriggerTautology) = Always
   \<and> UnderlyingSite (PtrLoad ConsumeTriggerTautology) = None"
  using ConsumeTriggerTautology_CheckConsume_always
    [of ConsumeTriggerTautology "[0 \<mapsto> \<lparr>IsNilable = True, IsDeepNilable = True\<rparr>]"
        "PtrLoad ConsumeTriggerTautology"]
  by simp

text \<open>
  Claim C9. \<open>LocalVarAssignDeep\<close> embeds the tautology, so its \<open>CheckConsume\<close> returns
  true for every annotation map; \<open>VariadicParamAssignDeep\<close> embeds \<open>TriggerIfNonNil\<close>,
  so its \<open>CheckConsume\<close> returns true exactly when its key is found and the annotation
  found is not (shallowly) nilable.
\<close>

theorem LocalVarAssignDeep_VariadicParamAssignDeep_CheckConsume:
  "CheckConsume (LocalVarAssignDeep c localVar) annMap
   \<and> embedded (LocalVarAssignDeep c localVar) = Tautology c
   \<and> embedded (VariadicParamAssignDeep (TriggerIfNonNil k)) = IfNonNil (TriggerIfNonNil k)
   \<and> (CheckConsume (VariadicParamAssignDeep (TriggerIfNonNil k)) annMap
        \<longleftrightarrow> (\<exists>ann. annMap k = Some ann \<and> IsNilable ann = False))"
  by (auto simp: TriggerIfNonNil_CheckConsume_def ConsumeTriggerTautology_CheckConsume_def
      CheckConsume_def Lookup_def split: option.splits)

section \<open>Positions\<close>

text \<open>
  Claim C7, as the code has it. \<open>Pos\<close> returns the position of the stored return
  statement exactly for the four variants that declare \<open>customPos\<close>
  (\<open>UseAsErrorResult\<close>, \<open>UseAsReturn\<close>,
  \<open>UseAsNonErrorRetDependentOnErrorRetNilability\<close> and
  \<open>UseAsErrorRetWithNilabilityUnknown\<close>) when their \<open>IsNamedReturn\<close> flag is set; for
  every other variant, and for these four with the flag unset, it returns the position
  of the expression.
\<close>

theorem ConsumeTrigger_Pos_named_return:
  "(Annotation c \<in> {UseAsErrorResult t retStmt True,
                    UseAsReturn t True retStmt,
                    UseAsNonErrorRetDependentOnErrorRetNilability t True retStmt,
                    UseAsErrorRetWithNilabilityUnknown t True retStmt}
      \<longrightarrow> ConsumeTrigger_Pos c = ReturnStmt_Pos retStmt)
   \<and> ((\<forall>t' retStmt'.
          Annotation c \<notin> {UseAsErrorResult t' retStmt' True,
                    UseAsReturn t' True retStmt',
                    UseAsNonErrorRetDependentOnErrorRetNilability t' True retStmt',
                    UseAsErrorRetWithNilabilityUnknown t' True retStmt'})
      \<longrightarrow> ConsumeTrigger_Pos c = Expr_Pos (Expr c))"
proof (intro conjI impI)
  assume "Annotation c \<in> {UseAsErrorResult t retStmt True,
                    UseAsReturn t True retStmt,
                    UseAsNonErrorRetDependentOnErrorRetNilability t True retStmt,
                    UseAsErrorRetWithNilabilityUnknown t True retStmt}"
  then show "ConsumeTrigger_Pos c = ReturnStmt_Pos retStmt"
    by (auto simp: ConsumeTrigger_Pos_def)
next
  assume h: "\<forall>t' retStmt'.
          Annotation c \<notin> {UseAsErrorResult t' retStmt' True,
                    UseAsReturn t' True retStmt',
                    UseAsNonErrorRetDependentOnErrorRetNilability t' True retStmt',
                    UseAsErrorRetWithNilabilityUnknown t' True retStmt'}"
  have "snd (customPos (Annotation c)) = False"
    using h
    by (cases "Annotation c")
       (simp_all add: ConsumeTriggerTautology_customPos_def TriggerIfDeepNonNil_customPos_def
          TriggerIfNonNil_customPos_def)
  then show "ConsumeTrigger_Pos c = Expr_Pos (Expr c)"
    by (cases "customPos (Annotation c)") (simp add: ConsumeTrigger_Pos_def)
qed

theorem ConsumeTrigger_Pos_named_return_witness:
  "ConsumeTrigger_Pos
     \<lparr>Annotation = UseAsNonErrorRetDependentOnErrorRetNilability (TriggerIfNonNil 0) True (ast_ReturnStmt 1 100),
      Expr = ast_Expr 2 5 6, Guards = {}, GuardMatched = False\<rparr> = 100
   \<and> ConsumeTrigger_Pos
     \<lparr>Annotation = UseAsReturn (TriggerIfNonNil 0) False (ast_ReturnStmt 1 100),
      Expr = ast_Expr 2 5 6, Guards = {}, GuardMatched = False\<rparr> = 5
   \<and> ConsumeTrigger_Pos
     \<lparr>Annotation = ArgPass (TriggerIfNonNil 0),
      Expr = ast_Expr 2 5 6, Guards = {}, GuardMatched = False\<rparr> = 5"
  using
    ConsumeTrigger_Pos_named_return
      [of "\<lparr>Annotation = UseAsNonErrorRetDependentOnErrorRetNilability (TriggerIfNonNil 0) True (ast_ReturnStmt 1 100),
      Expr = ast_Expr 2 5 6, Guards = {}, GuardMatched = False\<rparr>" "TriggerIfNonNil 0" "ast_ReturnStmt 1 100"]
    ConsumeTrigger_Pos_named_return
      [of "\<lparr>Annotation = UseAsReturn (TriggerIfNonNil 0) False (ast_ReturnStmt 1 100),
      Expr = ast_Expr 2 5 6, Guards = {}, GuardMatched = False\<rparr>" "TriggerIfNonNil 0" "ast_ReturnStmt 1 100"]
    ConsumeTrigger_Pos_named_return
      [of "\<lparr>Annotation = ArgPass (TriggerIfNonNil 0),
      Expr = ast_Expr 2 5 6, Guards = {}, GuardMatched = False\<rparr>" "TriggerIfNonNil 0" "ast_ReturnStmt 1 100"]
  by simp

text \<open>
  The non-error return whose validity depends on the error return is a fourth variant
  with a position of its own: with a named return it reports the position of the return
  statement (100 below), not that of the expression (5).
\<close>

theorem ConsumeTrigger_Pos_three_variants_counterexample:
  "ConsumeTrigger_Pos
     \<lparr>Annotation = UseAsNonErrorRetDependentOnErrorRetNilability (TriggerIfNonNil 0) True (ast_ReturnStmt 1 100),
      Expr = ast_Expr 2 5 6, Guards = {}, GuardMatched = False\<rparr> = 100
   \<and> Expr_Pos (Expr
     \<lparr>Annotation = UseAsNonErrorRetDependentOnErrorRetNilability (TriggerIfNonNil 0) True (ast_ReturnStmt 1 100),
      Expr = ast_Expr 2 5 6, Guards = {}, GuardMatched = False\<rparr>) = 5
   \<and> ConsumeTrigger_Pos
     \<lparr>Annotation = UseAsNonErrorRetDependentOnErrorRetNilability (TriggerIfNonNil 0) True (ast_ReturnStmt 1 100),
      Expr = ast_Expr 2 5 6, Guards = {}, GuardMatched = False\<rparr>
     \<noteq> Expr_Pos (Expr
     \<lparr>Annotation = UseAsNonErrorRetDependentOnErrorRetNilability (TriggerIfNonNil 0) True (ast_ReturnStmt 1 100),
      Expr = ast_Expr 2 5 6, Guards = {}, GuardMatched = False\<rparr>)"
  by (simp add: ConsumeTrigger_Pos_def)

section \<open>Guard stamping\<close>

lemma foldl_snoc_map: "foldl (\<lambda>out x. out @ [f x]) acc xs = acc @ map f xs"
  by (induction xs arbitrary: acc) simp_all

text \<open>
  Claim C3. \<open>ConsumeTriggerSliceAsGuarded\<close> returns one record for each record \<open>r\<close>
  of the slice, in the same order: its guards are the guards of \<open>r\<close> together with
  the new guards (so a superset of the guards of \<open>r\<close>), its annotation and its
  expression are those of \<open>r\<close>, and its \<open>GuardMatched\<close> is false whatever that of
  \<open>r\<close> was.
\<close>

theorem ConsumeTriggerSliceAsGuarded_records:
  "length (ConsumeTriggerSliceAsGuarded slice guards) = length slice
   \<and> (\<forall>i < length slice.
        Guards (ConsumeTriggerSliceAsGuarded slice guards ! i) = Guards (slice ! i) \<union> set guards
        \<and> Guards (slice ! i) \<subseteq> Guards (ConsumeTriggerSliceAsGuarded slice guards ! i)
        \<and> Annotation (ConsumeTriggerSliceAsGuarded slice guards ! i) = Annotation (slice ! i)
        \<and> Expr (ConsumeTriggerSliceAsGuarded slice guards ! i) = Expr (slice ! i)
        \<and> GuardMatched (ConsumeTriggerSliceAsGuarded slice guards ! i) = False)"
  by (auto simp: ConsumeTriggerSliceAsGuarded_def foldl_snoc_map Add_def Copy_def)

theorem ConsumeTriggerSliceAsGuarded_records_witness:
  "(0::nat) < length [\<lparr>Annotation = PtrLoad ConsumeTriggerTautology, Expr = ast_Expr 1 10 11,
                      Guards = {2}, GuardMatched = True\<rparr>]
   \<and> ConsumeTriggerSliceAsGuarded
       [\<lparr>Annotation = PtrLoad ConsumeTriggerTautology, Expr = ast_Expr 1 10 11,
         Guards = {2}, GuardMatched = True\<rparr>] [7]
     = [\<lparr>Annotation = PtrLoad ConsumeTriggerTautology, Expr = ast_Expr 1 10 11,
         Guards = {2, 7}, GuardMatched = False\<rparr>]"
  using ConsumeTriggerSliceAsGuarded_records
    [of "[\<lparr>Annotation = PtrLoad ConsumeTriggerTautology, Expr = ast_Expr 1 10 11,
         Guards = {2}, GuardMatched = True\<rparr>]" "[7]"]
  by (auto simp: ConsumeTriggerSliceAsGuarded_def Add_def Copy_def)

section \<open>Merging\<close>

lemma addToOut_absent:
  "obligation t \<notin> obligation ` set out \<Longrightarrow> addToOut out t = out @ [t]"
  by (induction out) (auto simp: obligation_def)

lemma addToOut_skip:
  "\<forall>y \<in> set ys. obligation y \<noteq> obligation t \<Longrightarrow> addToOut (ys @ zs) t = ys @ addToOut zs t"
  by (induction ys) (auto simp: obligation_def)

lemma addToOut_hit:
  "obligation o0 = obligation t \<Longrightarrow>
   addToOut (o0 # zs) t =
     \<lparr>Annotation = Annotation o0, Expr = Expr o0,
      Guards = Guards o0 \<inter> Guards t,
      GuardMatched = (GuardMatched o0 \<and> GuardMatched t)\<rparr> # zs"
  by (simp add: obligation_def Intersection_def)

lemma addToOut_present:
  assumes "obligation t \<in> obligation ` set out"
  shows "\<exists>ys o0 zs. out = ys @ o0 # zs \<and> obligation o0 = obligation t \<and>
           (\<forall>y \<in> set ys. obligation y \<noteq> obligation t) \<and>
           addToOut out t =
             ys @ \<lparr>Annotation = Annotation o0, Expr = Expr o0,
                   Guards = Guards o0 \<inter> Guards t,
                   GuardMatched = (GuardMatched o0 \<and> GuardMatched t)\<rparr> # zs"
proof -
  from assms have "\<exists>x \<in> set out. obligation x = obligation t" by auto
  then obtain ys o0 zs where d: "out = ys @ o0 # zs" "obligation o0 = obligation t"
    "\<forall>y \<in> set ys. obligation y \<noteq> obligation t"
    by (auto dest!: split_list_first_prop)
  from d(3) have "addToOut (ys @ o0 # zs) t = ys @ addToOut (o0 # zs) t"
    by (rule addToOut_skip)
  with d addToOut_hit [OF d(2)] show ?thesis by metis
qed

lemma map_obligation_addToOut:
  "map obligation (addToOut out t) =
     (if obligation t \<in> obligation ` set out then map obligation out
      else map obligation out @ [obligation t])"
  by (induction out) (auto simp: obligation_def)

lemma mergedFrom_Nil: "mergedFrom [] []"
  by (simp add: mergedFrom_def)

lemma mergedFrom_addToOut:
  assumes inv: "mergedFrom out xs"
  shows "mergedFrom (addToOut out t) (xs @ [t])"
proof (cases "obligation t \<in> obligation ` set out")
  case False
  then have a: "addToOut out t = out @ [t]" by (rule addToOut_absent)
  from False inv have nx: "obligation t \<notin> obligation ` set xs" by (simp add: mergedFrom_def)
  have "{r \<in> set (xs @ [t]). obligation r = obligation t} = {t}" using nx by (auto simp: image_iff)
  moreover have "\<And>e. e \<in> set out \<Longrightarrow>
      {r \<in> set (xs @ [t]). obligation r = obligation e} = {r \<in> set xs. obligation r = obligation e}"
    using False by auto
  ultimately show ?thesis using inv False nx
    unfolding a mergedFrom_def by (auto simp: image_iff)
next
  case True
  then obtain ys o0 zs where d: "out = ys @ o0 # zs" "obligation o0 = obligation t"
    "\<forall>y \<in> set ys. obligation y \<noteq> obligation t"
    and a: "addToOut out t =
             ys @ \<lparr>Annotation = Annotation o0, Expr = Expr o0,
                   Guards = Guards o0 \<inter> Guards t,
                   GuardMatched = (GuardMatched o0 \<and> GuardMatched t)\<rparr> # zs"
    using addToOut_present by blast
  let ?m = "\<lparr>Annotation = Annotation o0, Expr = Expr o0,
             Guards = Guards o0 \<inter> Guards t,
             GuardMatched = (GuardMatched o0 \<and> GuardMatched t)\<rparr>"
  have om: "obligation ?m = obligation o0" by (simp add: obligation_def)
  have dist: "distinct (map obligation out)" using inv by (simp add: mergedFrom_def)
  have keys: "obligation ` set out = obligation ` set xs" using inv by (simp add: mergedFrom_def)
  have c1: "distinct (map obligation (addToOut out t))"
    using dist True by (simp add: map_obligation_addToOut)
  have c2: "obligation ` set (addToOut out t) = obligation ` set (xs @ [t])"
  proof -
    have "obligation ` set (addToOut out t) = set (map obligation (addToOut out t))" by simp
    also have "\<dots> = obligation ` set out" using True by (simp add: map_obligation_addToOut)
    finally show ?thesis using keys True by auto
  qed
  have others: "\<And>e. e \<in> set ys \<union> set zs \<Longrightarrow> obligation e \<noteq> obligation t"
    using dist d by (auto simp: image_iff)
  have c3: "Guards e = (\<Inter>r \<in> {r \<in> set (xs @ [t]). obligation r = obligation e}. Guards r) \<and>
        GuardMatched e = (\<forall>r \<in> set (xs @ [t]). obligation r = obligation e \<longrightarrow> GuardMatched r)"
    if e: "e \<in> set (addToOut out t)" for e
  proof (cases "e = ?m")
    case True
    have s: "{r \<in> set (xs @ [t]). obligation r = obligation ?m}
             = insert t {r \<in> set xs. obligation r = obligation o0}"
      using d(2) om by auto
    have "o0 \<in> set out" using d by simp
    with inv have g0: "Guards o0 = (\<Inter>r \<in> {r \<in> set xs. obligation r = obligation o0}. Guards r)"
      and m0: "GuardMatched o0 = (\<forall>r \<in> set xs. obligation r = obligation o0 \<longrightarrow> GuardMatched r)"
      by (simp_all add: mergedFrom_def)
    have "Guards ?m = (\<Inter>r \<in> {r \<in> set (xs @ [t]). obligation r = obligation ?m}. Guards r)"
      unfolding s using g0 by auto
    moreover have "GuardMatched ?m = (\<forall>r \<in> set (xs @ [t]). obligation r = obligation ?m \<longrightarrow> GuardMatched r)"
      using m0 d(2) om by auto
    ultimately show ?thesis using True by simp
  next
    case False
    with e a have oo: "e \<in> set ys \<union> set zs" by auto
    then have ne: "obligation e \<noteq> obligation t" by (rule others)
    from oo d have "e \<in> set out" by auto
    with inv have "Guards e = (\<Inter>r \<in> {r \<in> set xs. obligation r = obligation e}. Guards r)"
      and "GuardMatched e = (\<forall>r \<in> set xs. obligation r = obligation e \<longrightarrow> GuardMatched r)"
      by (simp_all add: mergedFrom_def)
    moreover have "{r \<in> set (xs @ [t]). obligation r = obligation e} = {r \<in> set xs. obligation r = obligation e}"
      using ne by auto
    ultimately show ?thesis using ne by auto
  qed
  show ?thesis unfolding mergedFrom_def using c1 c2 c3 by blast
qed

lemma mergedFrom_foldl:
  "mergedFrom out xs \<Longrightarrow> mergedFrom (foldl addToOut out ts) (xs @ ts)"
proof (induction ts arbitrary: out xs)
  case Nil
  then show ?case by simp
next
  case (Cons t ts)
  from Cons.prems have "mergedFrom (addToOut out t) (xs @ [t])" by (rule mergedFrom_addToOut)
  then have "mergedFrom (foldl addToOut (addToOut out t) ts) ((xs @ [t]) @ ts)" by (rule Cons.IH)
  then show ?case by simp
qed

lemma mergedFrom_Merge: "mergedFrom (MergeConsumeTriggerSlices left right) (left @ right)"
proof -
  have "mergedFrom (foldl addToOut [] left) ([] @ left)"
    using mergedFrom_Nil by (rule mergedFrom_foldl)
  then have "mergedFrom (foldl addToOut [] left) left" by simp
  then show ?thesis unfolding MergeConsumeTriggerSlices_def by (rule mergedFrom_foldl)
qed

lemma map_obligation_foldl_addToOut:
  "distinct (map obligation ts) \<Longrightarrow>
   map obligation (foldl addToOut out ts) =
     map obligation out @ filter (\<lambda>k. k \<notin> obligation ` set out) (map obligation ts)"
proof (induction ts arbitrary: out)
  case Nil
  then show ?case by simp
next
  case (Cons t ts)
  from Cons.prems have dts: "distinct (map obligation ts)" and nt: "obligation t \<notin> obligation ` set ts"
    by auto
  have ih: "map obligation (foldl addToOut (addToOut out t) ts) =
     map obligation (addToOut out t) @
       filter (\<lambda>k. k \<notin> obligation ` set (addToOut out t)) (map obligation ts)"
    using dts by (rule Cons.IH)
  have ks: "obligation ` set (addToOut out t) = insert (obligation t) (obligation ` set out)"
  proof -
    have "obligation ` set (addToOut out t) = set (map obligation (addToOut out t))" by simp
    also have "\<dots> = insert (obligation t) (obligation ` set out)"
      by (auto simp: map_obligation_addToOut)
    finally show ?thesis .
  qed
  have f: "filter (\<lambda>k. k \<notin> insert (obligation t) (obligation ` set out)) (map obligation ts)
         = filter (\<lambda>k. k \<notin> obligation ` set out) (map obligation ts)"
    using nt by (intro filter_cong) auto
  show ?case using ih unfolding ks f
    by (simp add: map_obligation_addToOut)
qed


lemma map_obligation_foldl_Nil:
  "distinct (map obligation ts) \<Longrightarrow> map obligation (foldl addToOut [] ts) = map obligation ts"
  by (simp add: map_obligation_foldl_addToOut)

lemma obligation_inj:
  "distinct (map obligation xs) \<Longrightarrow> x \<in> set xs \<Longrightarrow> y \<in> set xs \<Longrightarrow>
   obligation x = obligation y \<Longrightarrow> x = y"
  by (auto simp: distinct_map dest: inj_onD)

lemma ConsumeTrigger_eqI:
  "Annotation e = a \<Longrightarrow> Expr e = x \<Longrightarrow> Guards e = g \<Longrightarrow> GuardMatched e = m \<Longrightarrow>
   e = \<lparr>Annotation = a, Expr = x, Guards = g, GuardMatched = m\<rparr>"
  by (cases e) simp


text \<open>
  Claim C2. For inputs \<open>A\<close> and \<open>B\<close> without duplicate obligations, the merge is
  the union on the matching key (annotation, expression): its length is the number of
  distinct obligations of \<open>A\<close> and \<open>B\<close>, no two of its records have the same
  obligation, and its obligations are those of \<open>A\<close> in their order, followed by those
  of \<open>B\<close> that \<open>A\<close> does not have, in their order.
\<close>

theorem MergeConsumeTriggerSlices_union:
  assumes "distinct (map obligation A)" and "distinct (map obligation B)"
  shows "length (MergeConsumeTriggerSlices A B) = card (obligation ` set A \<union> obligation ` set B)
    \<and> distinct (map obligation (MergeConsumeTriggerSlices A B))
    \<and> map obligation (MergeConsumeTriggerSlices A B)
        = map obligation A @ filter (\<lambda>k. k \<notin> obligation ` set A) (map obligation B)"
proof -
  let ?M = "MergeConsumeTriggerSlices A B"
  have inv: "mergedFrom ?M (A @ B)" by (rule mergedFrom_Merge)
  then have d: "distinct (map obligation ?M)" by (simp add: mergedFrom_def)
  from inv have k: "obligation ` set ?M = obligation ` set A \<union> obligation ` set B"
    by (simp add: mergedFrom_def image_Un)
  have "length ?M = length (map obligation ?M)" by simp
  also have "\<dots> = card (set (map obligation ?M))" using d by (simp only: distinct_card)
  also have "\<dots> = card (obligation ` set A \<union> obligation ` set B)" using k by simp
  finally have len: "length ?M = card (obligation ` set A \<union> obligation ` set B)" .
  have l: "map obligation (foldl addToOut [] A) = map obligation A"
    using assms(1) by (rule map_obligation_foldl_Nil)
  then have ls: "obligation ` set (foldl addToOut [] A) = obligation ` set A"
    by (metis list.set_map)
  have "map obligation ?M = map obligation (foldl addToOut [] A) @
      filter (\<lambda>k. k \<notin> obligation ` set (foldl addToOut [] A)) (map obligation B)"
    unfolding MergeConsumeTriggerSlices_def using assms(2) by (rule map_obligation_foldl_addToOut)
  then have ord: "map obligation ?M
        = map obligation A @ filter (\<lambda>k. k \<notin> obligation ` set A) (map obligation B)"
    by (simp only: l ls)
  from len d ord show ?thesis by blast
qed

theorem MergeConsumeTriggerSlices_union_witness:
  "distinct (map obligation
      [\<lparr>Annotation = PtrLoad ConsumeTriggerTautology, Expr = ast_Expr 1 10 11,
        Guards = {1, 2}, GuardMatched = True\<rparr>])
   \<and> distinct (map obligation
      [\<lparr>Annotation = PtrLoad ConsumeTriggerTautology, Expr = ast_Expr 1 10 11,
        Guards = {2, 3}, GuardMatched = True\<rparr>,
       \<lparr>Annotation = FldAccess ConsumeTriggerTautology, Expr = ast_Expr 2 20 21,
        Guards = {}, GuardMatched = False\<rparr>])
   \<and> length (MergeConsumeTriggerSlices
      [\<lparr>Annotation = PtrLoad ConsumeTriggerTautology, Expr = ast_Expr 1 10 11,
        Guards = {1, 2}, GuardMatched = True\<rparr>]
      [\<lparr>Annotation = PtrLoad ConsumeTriggerTautology, Expr = ast_Expr 1 10 11,
        Guards = {2, 3}, GuardMatched = True\<rparr>,
       \<lparr>Annotation = FldAccess ConsumeTriggerTautology, Expr = ast_Expr 2 20 21,
        Guards = {}, GuardMatched = False\<rparr>]) = 2
   \<and> map obligation (MergeConsumeTriggerSlices
      [\<lparr>Annotation = PtrLoad ConsumeTriggerTautology, Expr = ast_Expr 1 10 11,
        Guards = {1, 2}, GuardMatched = True\<rparr>]
      [\<lparr>Annotation = PtrLoad ConsumeTriggerTautology, Expr = ast_Expr 1 10 11,
        Guards = {2, 3}, GuardMatched = True\<rparr>,
       \<lparr>Annotation = FldAccess ConsumeTriggerTautology, Expr = ast_Expr 2 20 21,
        Guards = {}, GuardMatched = False\<rparr>])
     = [(PtrLoad ConsumeTriggerTautology, ast_Expr 1 10 11),
        (FldAccess ConsumeTriggerTautology, ast_Expr 2 20 21)]"
  using MergeConsumeTriggerSlices_union
    [of "[\<lparr>Annotation = PtrLoad ConsumeTriggerTautology, Expr = ast_Expr 1 10 11,
        Guards = {1, 2}, GuardMatched = True\<rparr>]"
      "[\<lparr>Annotation = PtrLoad ConsumeTriggerTautology, Expr = ast_Expr 1 10 11,
        Guards = {2, 3}, GuardMatched = True\<rparr>,
       \<lparr>Annotation = FldAccess ConsumeTriggerTautology, Expr = ast_Expr 2 20 21,
        Guards = {}, GuardMatched = False\<rparr>]"]
  by (simp add: obligation_def MergeConsumeTriggerSlices_def Intersection_def)

lemma merged_record:
  assumes inv: "mergedFrom M xs" and x: "x \<in> set xs"
  shows "\<lparr>Annotation = Annotation x, Expr = Expr x,
          Guards = (\<Inter>r \<in> {r \<in> set xs. obligation r = obligation x}. Guards r),
          GuardMatched = (\<forall>r \<in> set xs. obligation r = obligation x \<longrightarrow> GuardMatched r)\<rparr>
         \<in> set M"
proof -
  from inv have keys: "obligation ` set M = obligation ` set xs"
    and content: "\<forall>e \<in> set M.
        Guards e = (\<Inter>r \<in> {r \<in> set xs. obligation r = obligation e}. Guards r) \<and>
        GuardMatched e = (\<forall>r \<in> set xs. obligation r = obligation e \<longrightarrow> GuardMatched r)"
    by (simp_all add: mergedFrom_def)
  from x have "obligation x \<in> obligation ` set xs" by (rule imageI)
  with keys have "obligation x \<in> obligation ` set M" by simp
  then obtain e where e: "e \<in> set M" and oe: "obligation e = obligation x"
    by (auto simp: image_iff)
  from content e
  have g: "Guards e = (\<Inter>r \<in> {r \<in> set xs. obligation r = obligation e}. Guards r)"
    and m: "GuardMatched e = (\<forall>r \<in> set xs. obligation r = obligation e \<longrightarrow> GuardMatched r)"
    by blast+
  from oe have a: "Annotation e = Annotation x" and ex: "Expr e = Expr x"
    by (simp_all add: obligation_def)
  have "e = \<lparr>Annotation = Annotation x, Expr = Expr x,
          Guards = (\<Inter>r \<in> {r \<in> set xs. obligation r = obligation x}. Guards r),
          GuardMatched = (\<forall>r \<in> set xs. obligation r = obligation x \<longrightarrow> GuardMatched r)\<rparr>"
    using a ex g [unfolded oe] m [unfolded oe] by (rule ConsumeTrigger_eqI)
  with e show ?thesis by simp
qed

lemma same_obligation_both:
  assumes dl: "distinct (map obligation left)" and dr: "distinct (map obligation right)"
    and l: "l \<in> set left" and r: "r \<in> set right" and lr: "obligation l = obligation r"
  shows "{x \<in> set (left @ right). obligation x = obligation l} = {l, r}"
proof (rule set_eqI)
  fix x
  have il: "x \<in> set left \<Longrightarrow> obligation x = obligation l \<Longrightarrow> x = l"
    by (rule obligation_inj [OF dl _ l])
  have ir: "x \<in> set right \<Longrightarrow> obligation x = obligation r \<Longrightarrow> x = r"
    by (rule obligation_inj [OF dr _ r])
  show "x \<in> {x \<in> set (left @ right). obligation x = obligation l} \<longleftrightarrow> x \<in> {l, r}"
  proof
    assume "x \<in> {x \<in> set (left @ right). obligation x = obligation l}"
    then have xs: "x \<in> set left \<or> x \<in> set right" and ox: "obligation x = obligation l"
      by simp_all
    from xs show "x \<in> {l, r}"
    proof
      assume "x \<in> set left"
      with ox il show ?thesis by simp
    next
      assume "x \<in> set right"
      moreover from ox lr have "obligation x = obligation r" by simp
      ultimately show ?thesis using ir by simp
    qed
  next
    assume "x \<in> {l, r}"
    then have "x = l \<or> x = r" by simp
    then show "x \<in> {x \<in> set (left @ right). obligation x = obligation l}"
    proof
      assume "x = l" with l show ?thesis by simp
    next
      assume "x = r" with r lr show ?thesis by simp
    qed
  qed
qed

lemma same_obligation_one:
  assumes dl: "distinct (map obligation left)"
    and l: "l \<in> set left" and n: "obligation l \<notin> obligation ` set right"
  shows "{x \<in> set (left @ right). obligation x = obligation l} = {l}"
    and "{x \<in> set (right @ left). obligation x = obligation l} = {l}"
proof -
  have il: "\<And>x. x \<in> set left \<Longrightarrow> obligation x = obligation l \<Longrightarrow> x = l"
    by (rule obligation_inj [OF dl _ l])
  have nr: "\<And>x. x \<in> set right \<Longrightarrow> obligation x \<noteq> obligation l"
    using n by (metis imageI)
  show "{x \<in> set (left @ right). obligation x = obligation l} = {l}"
  proof (rule set_eqI)
    fix x
    show "x \<in> {x \<in> set (left @ right). obligation x = obligation l} \<longleftrightarrow> x \<in> {l}"
      using il [of x] nr [of x] l by auto
  qed
  show "{x \<in> set (right @ left). obligation x = obligation l} = {l}"
  proof (rule set_eqI)
    fix x
    show "x \<in> {x \<in> set (right @ left). obligation x = obligation l} \<longleftrightarrow> x \<in> {l}"
      using il [of x] nr [of x] l by auto
  qed
qed

lemma ball_obligation_set:
  "(\<forall>x \<in> set xs. obligation x = k \<longrightarrow> GuardMatched x)
     = (\<forall>x \<in> {x \<in> set xs. obligation x = k}. GuardMatched x)"
  by blast

lemma ConsumeTrigger_surj:
  "\<lparr>Annotation = Annotation c, Expr = Expr c, Guards = Guards c,
    GuardMatched = GuardMatched c\<rparr> = c"
  by (cases c) simp

text \<open>
  Claim C1, for inputs that each hold an obligation at most once. An obligation that
  appears in both inputs (same annotation and same expression, whatever the guards) is
  merged into the record whose guards are the intersection of the two guard sets and
  whose \<open>GuardMatched\<close> is the conjunction of the two flags; a record whose obligation
  appears in one input only is in the result unchanged; and the result holds each
  obligation once, so these are the only records of their obligations.
\<close>

theorem MergeConsumeTriggerSlices_matched_pairs:
  assumes dl: "distinct (map obligation left)" and dr: "distinct (map obligation right)"
  shows "(\<forall>l \<in> set left. \<forall>r \<in> set right. obligation l = obligation r \<longrightarrow>
            \<lparr>Annotation = Annotation l, Expr = Expr l,
             Guards = Guards l \<inter> Guards r,
             GuardMatched = (GuardMatched l \<and> GuardMatched r)\<rparr>
            \<in> set (MergeConsumeTriggerSlices left right))
       \<and> (\<forall>l \<in> set left. obligation l \<notin> obligation ` set right \<longrightarrow>
            l \<in> set (MergeConsumeTriggerSlices left right))
       \<and> (\<forall>r \<in> set right. obligation r \<notin> obligation ` set left \<longrightarrow>
            r \<in> set (MergeConsumeTriggerSlices left right))
       \<and> distinct (map obligation (MergeConsumeTriggerSlices left right))"
proof (intro conjI ballI impI)
  fix l r
  assume l: "l \<in> set left" and r: "r \<in> set right" and lr: "obligation l = obligation r"
  have inv: "mergedFrom (MergeConsumeTriggerSlices left right) (left @ right)"
    by (rule mergedFrom_Merge)
  have s: "{x \<in> set (left @ right). obligation x = obligation l} = {l, r}"
    using dl dr l r lr by (rule same_obligation_both)
  from l have "l \<in> set (left @ right)" by simp
  from merged_record [OF inv this]
  show "\<lparr>Annotation = Annotation l, Expr = Expr l,
             Guards = Guards l \<inter> Guards r,
             GuardMatched = (GuardMatched l \<and> GuardMatched r)\<rparr>
            \<in> set (MergeConsumeTriggerSlices left right)"
    unfolding ball_obligation_set s by simp
next
  fix l
  assume l: "l \<in> set left" and n: "obligation l \<notin> obligation ` set right"
  have inv: "mergedFrom (MergeConsumeTriggerSlices left right) (left @ right)"
    by (rule mergedFrom_Merge)
  have s: "{x \<in> set (left @ right). obligation x = obligation l} = {l}"
    using dl l n by (rule same_obligation_one(1))
  from l have "l \<in> set (left @ right)" by simp
  from merged_record [OF inv this]
  show "l \<in> set (MergeConsumeTriggerSlices left right)"
    unfolding ball_obligation_set s by (simp add: ConsumeTrigger_surj)
next
  fix r
  assume r: "r \<in> set right" and n: "obligation r \<notin> obligation ` set left"
  have inv: "mergedFrom (MergeConsumeTriggerSlices left right) (left @ right)"
    by (rule mergedFrom_Merge)
  have s: "{x \<in> set (left @ right). obligation x = obligation r} = {r}"
    using dr r n by (rule same_obligation_one(2))
  from r have "r \<in> set (left @ right)" by simp
  from merged_record [OF inv this]
  show "r \<in> set (MergeConsumeTriggerSlices left right)"
    unfolding ball_obligation_set s by (simp add: ConsumeTrigger_surj)
next
  have "mergedFrom (MergeConsumeTriggerSlices left right) (left @ right)"
    by (rule mergedFrom_Merge)
  then show "distinct (map obligation (MergeConsumeTriggerSlices left right))"
    by (simp add: mergedFrom_def)
qed

theorem MergeConsumeTriggerSlices_matched_pairs_witness:
  "distinct (map obligation
      [\<lparr>Annotation = PtrLoad ConsumeTriggerTautology, Expr = ast_Expr 1 10 11,
        Guards = {1, 2}, GuardMatched = True\<rparr>])
   \<and> distinct (map obligation
      [\<lparr>Annotation = PtrLoad ConsumeTriggerTautology, Expr = ast_Expr 1 10 11,
        Guards = {2, 3}, GuardMatched = False\<rparr>,
       \<lparr>Annotation = FldAccess ConsumeTriggerTautology, Expr = ast_Expr 2 20 21,
        Guards = {}, GuardMatched = True\<rparr>])
   \<and> \<lparr>Annotation = PtrLoad ConsumeTriggerTautology, Expr = ast_Expr 1 10 11,
        Guards = {2}, GuardMatched = False\<rparr>
      \<in> set (MergeConsumeTriggerSlices
      [\<lparr>Annotation = PtrLoad ConsumeTriggerTautology, Expr = ast_Expr 1 10 11,
        Guards = {1, 2}, GuardMatched = True\<rparr>]
      [\<lparr>Annotation = PtrLoad ConsumeTriggerTautology, Expr = ast_Expr 1 10 11,
        Guards = {2, 3}, GuardMatched = False\<rparr>,
       \<lparr>Annotation = FldAccess ConsumeTriggerTautology, Expr = ast_Expr 2 20 21,
        Guards = {}, GuardMatched = True\<rparr>])
   \<and> \<lparr>Annotation = FldAccess ConsumeTriggerTautology, Expr = ast_Expr 2 20 21,
        Guards = {}, GuardMatched = True\<rparr>
      \<in> set (MergeConsumeTriggerSlices
      [\<lparr>Annotation = PtrLoad ConsumeTriggerTautology, Expr = ast_Expr 1 10 11,
        Guards = {1, 2}, GuardMatched = True\<rparr>]
      [\<lparr>Annotation = PtrLoad ConsumeTriggerTautology, Expr = ast_Expr 1 10 11,
        Guards = {2, 3}, GuardMatched = False\<rparr>,
       \<lparr>Annotation = FldAccess ConsumeTriggerTautology, Expr = ast_Expr 2 20 21,
        Guards = {}, GuardMatched = True\<rparr>])"
  using MergeConsumeTriggerSlices_matched_pairs
    [of "[\<lparr>Annotation = PtrLoad ConsumeTriggerTautology, Expr = ast_Expr 1 10 11,
        Guards = {1, 2}, GuardMatched = True\<rparr>]"
      "[\<lparr>Annotation = PtrLoad ConsumeTriggerTautology, Expr = ast_Expr 1 10 11,
        Guards = {2, 3}, GuardMatched = False\<rparr>,
       \<lparr>Annotation = FldAccess ConsumeTriggerTautology, Expr = ast_Expr 2 20 21,
        Guards = {}, GuardMatched = True\<rparr>]"]
  by (simp add: obligation_def MergeConsumeTriggerSlices_def Intersection_def)

text \<open>
  Without that condition on the inputs the records of an obligation that one input
  alone holds do not pass through unchanged: two left records of the same obligation
  with guards \<open>{1}\<close> and \<open>{2}\<close>, merged with an empty right side, leave one record
  with no guard, which is neither of them.
\<close>

theorem MergeConsumeTriggerSlices_pass_through_counterexample:
  "obligation \<lparr>Annotation = PtrLoad ConsumeTriggerTautology, Expr = ast_Expr 1 10 11,
        Guards = {1}, GuardMatched = True\<rparr>
     \<notin> obligation ` set []
   \<and> MergeConsumeTriggerSlices
      [\<lparr>Annotation = PtrLoad ConsumeTriggerTautology, Expr = ast_Expr 1 10 11,
        Guards = {1}, GuardMatched = True\<rparr>,
       \<lparr>Annotation = PtrLoad ConsumeTriggerTautology, Expr = ast_Expr 1 10 11,
        Guards = {2}, GuardMatched = True\<rparr>] []
     = [\<lparr>Annotation = PtrLoad ConsumeTriggerTautology, Expr = ast_Expr 1 10 11,
        Guards = {}, GuardMatched = True\<rparr>]
   \<and> \<lparr>Annotation = PtrLoad ConsumeTriggerTautology, Expr = ast_Expr 1 10 11,
        Guards = {1}, GuardMatched = True\<rparr>
     \<notin> set (MergeConsumeTriggerSlices
      [\<lparr>Annotation = PtrLoad ConsumeTriggerTautology, Expr = ast_Expr 1 10 11,
        Guards = {1}, GuardMatched = True\<rparr>,
       \<lparr>Annotation = PtrLoad ConsumeTriggerTautology, Expr = ast_Expr 1 10 11,
        Guards = {2}, GuardMatched = True\<rparr>] [])
   \<and> \<lparr>Annotation = PtrLoad ConsumeTriggerTautology, Expr = ast_Expr 1 10 11,
        Guards = {2}, GuardMatched = True\<rparr>
     \<notin> set (MergeConsumeTriggerSlices
      [\<lparr>Annotation = PtrLoad ConsumeTriggerTautology, Expr = ast_Expr 1 10 11,
        Guards = {1}, GuardMatched = True\<rparr>,
       \<lparr>Annotation = PtrLoad ConsumeTriggerTautology, Expr = ast_Expr 1 10 11,
        Guards = {2}, GuardMatched = True\<rparr>] [])"
  by (simp add: MergeConsumeTriggerSlices_def Intersection_def)

text \<open>
  Claim C10. The result of a merge never holds two records with the same obligation,
  whatever the inputs hold; it has exactly the obligations of the inputs; and the record
  of an obligation is guarded by the intersection of the guard sets of all input
  records of that obligation and is matched when all of them are. In particular two
  records \<open>a\<close> and \<open>b\<close> of the same obligation in the left slice, merged with an
  empty right slice, collapse into one record with the guards common to both and the
  conjunction of their flags.
\<close>

theorem MergeConsumeTriggerSlices_collapses_duplicates:
  "distinct (map obligation (MergeConsumeTriggerSlices left right))
   \<and> obligation ` set (MergeConsumeTriggerSlices left right) = obligation ` set (left @ right)
   \<and> (\<forall>e \<in> set (MergeConsumeTriggerSlices left right).
        Guards e = (\<Inter>r \<in> {r \<in> set (left @ right). obligation r = obligation e}. Guards r) \<and>
        GuardMatched e =
          (\<forall>r \<in> set (left @ right). obligation r = obligation e \<longrightarrow> GuardMatched r))
   \<and> (obligation a = obligation b \<longrightarrow>
        MergeConsumeTriggerSlices [a, b] [] =
          [\<lparr>Annotation = Annotation a, Expr = Expr a,
            Guards = Guards a \<inter> Guards b,
            GuardMatched = (GuardMatched a \<and> GuardMatched b)\<rparr>])"
proof -
  have "mergedFrom (MergeConsumeTriggerSlices left right) (left @ right)"
    by (rule mergedFrom_Merge)
  moreover have "obligation a = obligation b \<longrightarrow>
        MergeConsumeTriggerSlices [a, b] [] =
          [\<lparr>Annotation = Annotation a, Expr = Expr a,
            Guards = Guards a \<inter> Guards b,
            GuardMatched = (GuardMatched a \<and> GuardMatched b)\<rparr>]"
    by (simp add: MergeConsumeTriggerSlices_def obligation_def Intersection_def)
  ultimately show ?thesis unfolding mergedFrom_def by blast
qed

theorem MergeConsumeTriggerSlices_collapses_duplicates_witness:
  "obligation \<lparr>Annotation = PtrLoad ConsumeTriggerTautology, Expr = ast_Expr 1 10 11,
        Guards = {1, 2}, GuardMatched = True\<rparr>
   = obligation \<lparr>Annotation = PtrLoad ConsumeTriggerTautology, Expr = ast_Expr 1 10 11,
        Guards = {2, 3}, GuardMatched = False\<rparr>
   \<and> MergeConsumeTriggerSlices
      [\<lparr>Annotation = PtrLoad ConsumeTriggerTautology, Expr = ast_Expr 1 10 11,
        Guards = {1, 2}, GuardMatched = True\<rparr>,
       \<lparr>Annotation = PtrLoad ConsumeTriggerTautology, Expr = ast_Expr 1 10 11,
        Guards = {2, 3}, GuardMatched = False\<rparr>] []
     = [\<lparr>Annotation = PtrLoad ConsumeTriggerTautology, Expr = ast_Expr 1 10 11,
        Guards = {2}, GuardMatched = False\<rparr>]"
  using MergeConsumeTriggerSlices_collapses_duplicates
    [of "[\<lparr>Annotation = PtrLoad ConsumeTriggerTautology, Expr = ast_Expr 1 10 11,
        Guards = {1, 2}, GuardMatched = True\<rparr>,
       \<lparr>Annotation = PtrLoad ConsumeTriggerTautology, Expr = ast_Expr 1 10 11,
        Guards = {2, 3}, GuardMatched = False\<rparr>]" "[]"
       "\<lparr>Annotation = PtrLoad ConsumeTriggerTautology, Expr = ast_Expr 1 10 11,
        Guards = {1, 2}, GuardMatched = True\<rparr>"
       "\<lparr>Annotation = PtrLoad ConsumeTriggerTautology, Expr = ast_Expr 1 10 11,
        Guards = {2, 3}, GuardMatched = False\<rparr>"]
  by (simp add: obligation_def MergeConsumeTriggerSlices_def Intersection_def)

section \<open>Equality of slices\<close>

lemma ConsumeTrigger_Eq_iff: "ConsumeTrigger_Eq c c2 \<longleftrightarrow> c = c2"
  by (cases c, cases c2) (auto simp: ConsumeTrigger_Eq_def GuardNonceSet_Eq_def)

lemma rsearch_iff: "rsearch l right \<longleftrightarrow> l \<in> set right"
  by (induction right) (auto simp: ConsumeTrigger_Eq_iff)

lemma lsearch_iff: "lsearch left right \<longleftrightarrow> set left \<subseteq> set right"
  by (induction left) (auto simp: rsearch_iff)

lemma ConsumeTriggerSlicesEq_iff:
  "ConsumeTriggerSlicesEq left right \<longleftrightarrow> length left = length right \<and> set left \<subseteq> set right"
  by (simp add: ConsumeTriggerSlicesEq_def lsearch_iff)

lemma distinct_same_length_subset:
  assumes "distinct xs" and "distinct ys"
  shows "length xs = length ys \<and> set xs \<subseteq> set ys \<longleftrightarrow> set xs = set ys"
proof
  assume a: "length xs = length ys \<and> set xs \<subseteq> set ys"
  then have "card (set xs) = card (set ys)" using assms by (simp add: distinct_card)
  with a show "set xs = set ys" by (simp add: card_subset_eq)
next
  assume "set xs = set ys"
  then show "length xs = length ys \<and> set xs \<subseteq> set ys"
    using assms by (metis distinct_card subset_refl)
qed

text \<open>
  Claim C8. For slices without duplicates, \<open>ConsumeTriggerSlicesEq\<close> returns true
  exactly when each record of either slice has an \<open>Eq\<close> record in the other, where
  \<open>Eq\<close> is equality of annotation, expression, guard set and \<open>GuardMatched\<close>; it is
  reflexive and symmetric, its result does not change when either slice is permuted,
  and it returns false when the lengths differ. The hypothesis asks only that no record
  occurs twice in a slice, which holds a fortiori when no obligation does.
\<close>

theorem ConsumeTriggerSlicesEq_equivalence:
  assumes "distinct left" and "distinct right"
  shows "(ConsumeTriggerSlicesEq left right \<longleftrightarrow>
            (\<forall>l \<in> set left. \<exists>r \<in> set right. ConsumeTrigger_Eq l r) \<and>
            (\<forall>r \<in> set right. \<exists>l \<in> set left. ConsumeTrigger_Eq r l))
       \<and> (ConsumeTrigger_Eq c c2 \<longleftrightarrow>
            Annotation c = Annotation c2 \<and> Expr c = Expr c2 \<and>
            Guards c = Guards c2 \<and> GuardMatched c = GuardMatched c2)
       \<and> ConsumeTriggerSlicesEq left left
       \<and> ConsumeTriggerSlicesEq left right = ConsumeTriggerSlicesEq right left
       \<and> (mset left' = mset left \<and> mset right' = mset right \<longrightarrow>
            ConsumeTriggerSlicesEq left' right' = ConsumeTriggerSlicesEq left right)
       \<and> (length left \<noteq> length right \<longrightarrow> \<not> ConsumeTriggerSlicesEq left right)"
proof -
  have e: "ConsumeTriggerSlicesEq left right \<longleftrightarrow> set left = set right"
    using assms by (simp add: ConsumeTriggerSlicesEq_iff distinct_same_length_subset)
  have e': "ConsumeTriggerSlicesEq right left \<longleftrightarrow> set right = set left"
    using assms by (simp add: ConsumeTriggerSlicesEq_iff distinct_same_length_subset)
  have 1: "ConsumeTriggerSlicesEq left right \<longleftrightarrow>
            (\<forall>l \<in> set left. \<exists>r \<in> set right. ConsumeTrigger_Eq l r) \<and>
            (\<forall>r \<in> set right. \<exists>l \<in> set left. ConsumeTrigger_Eq r l)"
    unfolding e ConsumeTrigger_Eq_iff by auto
  have 2: "ConsumeTrigger_Eq c c2 \<longleftrightarrow>
            Annotation c = Annotation c2 \<and> Expr c = Expr c2 \<and>
            Guards c = Guards c2 \<and> GuardMatched c = GuardMatched c2"
    by (simp add: ConsumeTrigger_Eq_def GuardNonceSet_Eq_def)
  have 3: "ConsumeTriggerSlicesEq left left" by (simp add: ConsumeTriggerSlicesEq_iff)
  have 4: "ConsumeTriggerSlicesEq left right = ConsumeTriggerSlicesEq right left"
    unfolding e e' by auto
  have 5: "mset left' = mset left \<and> mset right' = mset right \<longrightarrow>
            ConsumeTriggerSlicesEq left' right' = ConsumeTriggerSlicesEq left right"
  proof
    assume p: "mset left' = mset left \<and> mset right' = mset right"
    then have "set left' = set left" "set right' = set right"
      "length left' = length left" "length right' = length right"
      by (auto dest: mset_eq_setD mset_eq_length)
    then show "ConsumeTriggerSlicesEq left' right' = ConsumeTriggerSlicesEq left right"
      by (simp add: ConsumeTriggerSlicesEq_iff)
  qed
  have 6: "length left \<noteq> length right \<longrightarrow> \<not> ConsumeTriggerSlicesEq left right"
    by (simp add: ConsumeTriggerSlicesEq_def)
  from 1 2 3 4 5 6 show ?thesis by blast
qed

theorem ConsumeTriggerSlicesEq_equivalence_witness:
  "distinct
      [\<lparr>Annotation = PtrLoad ConsumeTriggerTautology, Expr = ast_Expr 1 10 11,
        Guards = {1}, GuardMatched = True\<rparr>,
       \<lparr>Annotation = FldAccess ConsumeTriggerTautology, Expr = ast_Expr 2 20 21,
        Guards = {}, GuardMatched = False\<rparr>]
   \<and> distinct
      [\<lparr>Annotation = FldAccess ConsumeTriggerTautology, Expr = ast_Expr 2 20 21,
        Guards = {}, GuardMatched = False\<rparr>,
       \<lparr>Annotation = PtrLoad ConsumeTriggerTautology, Expr = ast_Expr 1 10 11,
        Guards = {1}, GuardMatched = True\<rparr>]
   \<and> ConsumeTriggerSlicesEq
      [\<lparr>Annotation = PtrLoad ConsumeTriggerTautology, Expr = ast_Expr 1 10 11,
        Guards = {1}, GuardMatched = True\<rparr>,
       \<lparr>Annotation = FldAccess ConsumeTriggerTautology, Expr = ast_Expr 2 20 21,
        Guards = {}, GuardMatched = False\<rparr>]
      [\<lparr>Annotation = FldAccess ConsumeTriggerTautology, Expr = ast_Expr 2 20 21,
        Guards = {}, GuardMatched = False\<rparr>,
       \<lparr>Annotation = PtrLoad ConsumeTriggerTautology, Expr = ast_Expr 1 10 11,
        Guards = {1}, GuardMatched = True\<rparr>]
   \<and> ConsumeTriggerSlicesEq
      [\<lparr>Annotation = FldAccess ConsumeTriggerTautology, Expr = ast_Expr 2 20 21,
        Guards = {}, GuardMatched = False\<rparr>,
       \<lparr>Annotation = PtrLoad ConsumeTriggerTautology, Expr = ast_Expr 1 10 11,
        Guards = {1}, GuardMatched = True\<rparr>]
      [\<lparr>Annotation = PtrLoad ConsumeTriggerTautology, Expr = ast_Expr 1 10 11,
        Guards = {1}, GuardMatched = True\<rparr>,
       \<lparr>Annotation = FldAccess ConsumeTriggerTautology, Expr = ast_Expr 2 20 21,
        Guards = {}, GuardMatched = False\<rparr>]"
  using ConsumeTriggerSlicesEq_equivalence
    [of "[\<lparr>Annotation = PtrLoad ConsumeTriggerTautology, Expr = ast_Expr 1 10 11,
        Guards = {1}, GuardMatched = True\<rparr>,
       \<lparr>Annotation = FldAccess ConsumeTriggerTautology, Expr = ast_Expr 2 20 21,
        Guards = {}, GuardMatched = False\<rparr>]"
      "[\<lparr>Annotation = FldAccess ConsumeTriggerTautology, Expr = ast_Expr 2 20 21,
        Guards = {}, GuardMatched = False\<rparr>,
       \<lparr>Annotation = PtrLoad ConsumeTriggerTautology, Expr = ast_Expr 1 10 11,
        Guards = {1}, GuardMatched = True\<rparr>]"]
  by (simp add: ConsumeTriggerSlicesEq_def ConsumeTrigger_Eq_def GuardNonceSet_Eq_def)

end
